theory Spec2Isabelle
  imports Main "HOL-Library.Dlist"
begin

section \<open>Values, objects and the heap\<close>

text \<open>
  The package \<open>mapset\<close> stores elements of type \<open>interface{}\<close> as the keys of a Go
  map (\<open>threadUnsafeSet\<close>; the wrapper applies \<open>len\<close>, \<open>delete\<close> and \<open>range\<close> to it) and
  wraps one such map together with a \<open>sync.RWMutex\<close> in the struct \<open>threadSafeSet\<close>.
  Maps are reference objects and the wrapper copies map references into new structs
  (\<open>&threadSafeSet{S: *unsafeUnion}\<close>), so both the map objects and the structs live
  in an explicit store, addressed by their allocation index. An address that is not
  allocated stands for \<open>nil\<close>.

  The two source files are the same text up to the name of the struct's field
  (\<open>S\<close> in \<open>threadsafe.go\<close>, \<open>s\<close> in the other); the model follows \<open>threadsafe.go\<close>.
  Lengths (\<open>len\<close>, \<open>Cardinality\<close>) are natural numbers: they are never negative and
  no arithmetic is done on them.
\<close>

type_synonym addr = nat

text \<open>
  A non-nil value of the interface \<open>Set\<close>: a \<open>*threadSafeSet\<close> (the address of a struct)
  or a \<open>*threadUnsafeSet\<close> (identified with the map object it points to).
\<close>

datatype Set_iface = SafePtr addr | UnsafePtr addr

text \<open>
  The comparable \<open>interface{}\<close> values that occur as elements: integers, strings, the
  ordered pairs built by \<open>CartesianProduct\<close> and the set pointers built by \<open>PowerSet\<close>.
  Pointers compare by address, as in Go.
\<close>

datatype elem = IntE int | StrE string | PairE elem elem | SetE Set_iface

text \<open>The calls made on the field \<open>l\<close> of the struct at the given address.\<close>

datatype lock_event = Lock addr | Unlock addr | RLock addr | RUnlock addr

datatype panic = InterfaceConversion | NilDereference | NilMapWrite

text \<open>
  \<open>type threadSafeSet struct { S threadUnsafeSet; l sync.RWMutex }\<close>: the field \<open>S\<close>
  holds the reference to the map object; the history of the mutex \<open>l\<close> is kept in the
  heap's \<open>lock_log\<close>, each entry tagged with the struct's address.
\<close>

record threadSafeSet =
  S :: addr

text \<open>
  A map object is the duplicate-free list of its keys; the order of the list is the
  (unspecified) order in which \<open>range\<close> visits them.
\<close>

record heap =
  map_objs :: "elem dlist list"
  set_objs :: "threadSafeSet list"
  lock_log :: "lock_event list"

definition lock_call :: "lock_event \<Rightarrow> heap \<Rightarrow> heap" where
  "lock_call ev h = h\<lparr>lock_log := lock_log h @ [ev]\<rparr>"

definition deref :: "heap \<Rightarrow> addr \<Rightarrow> threadSafeSet option" where
  "deref h a = (if a < length (set_objs h) then Some (set_objs h ! a) else None)"

text \<open>Reading a map object; a nil map reads as the empty map.\<close>

definition load :: "heap \<Rightarrow> addr \<Rightarrow> elem dlist" where
  "load h m = (if m < length (map_objs h) then map_objs h ! m else Dlist.empty)"

definition store :: "addr \<Rightarrow> elem dlist \<Rightarrow> heap \<Rightarrow> heap" where
  "store m d h = h\<lparr>map_objs := (map_objs h)[m := d]\<rparr>"

text \<open>\<open>make(threadUnsafeSet)\<close> followed by filling in the keys \<open>d\<close>.\<close>

definition make_map :: "elem dlist \<Rightarrow> heap \<Rightarrow> addr \<times> heap" where
  "make_map d h = (length (map_objs h), h\<lparr>map_objs := map_objs h @ [d]\<rparr>)"

text \<open>\<open>&threadSafeSet{S: m}\<close>\<close>

definition new_threadSafeSet :: "addr \<Rightarrow> heap \<Rightarrow> addr \<times> heap" where
  "new_threadSafeSet m h =
     (length (set_objs h), h\<lparr>set_objs := set_objs h @ [\<lparr>S = m\<rparr>]\<rparr>)"

text \<open>The builtins \<open>len\<close>, \<open>delete\<close> and \<open>range\<close> on a map.\<close>

definition len_map :: "heap \<Rightarrow> addr \<Rightarrow> nat" where
  "len_map h m = Dlist.length (load h m)"

definition delete_map :: "addr \<Rightarrow> elem \<Rightarrow> heap \<Rightarrow> heap" where
  "delete_map m i h = store m (Dlist.remove i (load h m)) h"

definition range_map :: "heap \<Rightarrow> addr \<Rightarrow> elem list" where
  "range_map h m = list_of_dlist (load h m)"

text \<open>The value and the final heap of a call that returned; \<open>None\<close> when it panicked.\<close>

definition value_of :: "panic + ('a \<times> heap) \<Rightarrow> 'a option" where
  "value_of r = (case r of Inl _ \<Rightarrow> None | Inr (v, _) \<Rightarrow> Some v)"

definition heap_of :: "panic + ('a \<times> heap) \<Rightarrow> heap option" where
  "heap_of r = (case r of Inl _ \<Rightarrow> None | Inr (_, h) \<Rightarrow> Some h)"

text \<open>
  A properly constructed thread-safe set: the struct is allocated and its field \<open>S\<close>
  refers to an allocated map (every constructor in the source initialises \<open>S\<close> with
  \<open>newThreadUnsafeSet()\<close> or with the result of an engine operation).
\<close>

definition live :: "heap \<Rightarrow> addr \<Rightarrow> bool" where
  "live h a \<longleftrightarrow> a < length (set_objs h) \<and> S (set_objs h ! a) < length (map_objs h)"

text \<open>The keys of the set at address \<open>a\<close>.\<close>

definition elems :: "heap \<Rightarrow> addr \<Rightarrow> elem set" where
  "elems h a = set (range_map h (S (set_objs h ! a)))"


section \<open>The unsynchronized engine\<close>

text \<open>
  The methods of \<open>threadUnsafeSet\<close> are not part of the sources at hand; only their
  calls are. Each is modelled from the specification's contract for the operation of
  the same name. The receiver and the operand are passed as the map objects that
  \<open>&set.S\<close> and \<open>&o.S\<close> point to when the call is made.
\<close>

text \<open>Modelled from the spec: \<open>newThreadUnsafeSet\<close> is missing; it returns a fresh
  empty engine.\<close>

definition newThreadUnsafeSet :: "heap \<Rightarrow> addr \<times> heap" where
  "newThreadUnsafeSet h = make_map Dlist.empty h"

text \<open>Modelled from the spec: \<open>threadUnsafeSet.Add\<close> is missing; "true if the element
  was not already present (and is now inserted); false if already present". Writing
  to a nil map panics in Go.\<close>

definition unsafe_Add :: "addr \<Rightarrow> elem \<Rightarrow> heap \<Rightarrow> panic + (bool \<times> heap)" where
  "unsafe_Add m i h =
     (if Dlist.member (load h m) i then Inr (False, h)
      else if m < length (map_objs h) then Inr (True, store m (Dlist.insert i (load h m)) h)
      else Inl NilMapWrite)"

text \<open>Modelled from the spec: \<open>threadUnsafeSet.Contains\<close> is missing; "true iff every
  given element is present; vacuously true for zero elements".\<close>

definition unsafe_Contains :: "addr \<Rightarrow> elem list \<Rightarrow> heap \<Rightarrow> bool" where
  "unsafe_Contains m is h = list_all (Dlist.member (load h m)) is"

text \<open>Modelled from the spec: \<open>threadUnsafeSet.IsSubset\<close> is missing; "true iff every
  element of receiver is in other".\<close>

definition unsafe_IsSubset :: "addr \<Rightarrow> addr \<Rightarrow> heap \<Rightarrow> bool" where
  "unsafe_IsSubset m oth h = list_all (Dlist.member (load h oth)) (range_map h m)"

text \<open>Modelled from the spec: \<open>threadUnsafeSet.IsProperSubset\<close> is missing; "true iff
  IsSubset holds and cardinalities differ".\<close>

definition unsafe_IsProperSubset :: "addr \<Rightarrow> addr \<Rightarrow> heap \<Rightarrow> bool" where
  "unsafe_IsProperSubset m oth h \<longleftrightarrow>
     unsafe_IsSubset m oth h \<and> len_map h m \<noteq> len_map h oth"

text \<open>Modelled from the spec: \<open>threadUnsafeSet.Equal\<close> is missing; "true iff same
  cardinality and same elements".\<close>

definition unsafe_Equal :: "addr \<Rightarrow> addr \<Rightarrow> heap \<Rightarrow> bool" where
  "unsafe_Equal m oth h \<longleftrightarrow>
     len_map h m = len_map h oth \<and> list_all (Dlist.member (load h oth)) (range_map h m)"

text \<open>Modelled from the spec: \<open>threadUnsafeSet.Union\<close> is missing; "new Set per
  standard set algebra", a new instance of the engine, "never mutating operands of
  binary operations".\<close>

definition unsafe_Union :: "addr \<Rightarrow> addr \<Rightarrow> heap \<Rightarrow> addr \<times> heap" where
  "unsafe_Union m oth h = make_map (dlist_of_list (range_map h m @ range_map h oth)) h"

text \<open>Modelled from the spec: \<open>threadUnsafeSet.Intersect\<close> is missing; "new Set per
  standard set algebra", a new instance of the engine.\<close>

definition unsafe_Intersect :: "addr \<Rightarrow> addr \<Rightarrow> heap \<Rightarrow> addr \<times> heap" where
  "unsafe_Intersect m oth h =
     make_map (Dlist.filter (Dlist.member (load h oth)) (load h m)) h"

text \<open>Modelled from the spec: \<open>threadUnsafeSet.Difference\<close> is missing; "new Set per
  standard set algebra", a new instance of the engine.\<close>

definition unsafe_Difference :: "addr \<Rightarrow> addr \<Rightarrow> heap \<Rightarrow> addr \<times> heap" where
  "unsafe_Difference m oth h =
     make_map (Dlist.filter (\<lambda>x. \<not> Dlist.member (load h oth) x) (load h m)) h"

text \<open>Modelled from the spec: \<open>threadUnsafeSet.SymmetricDifference\<close> is missing; "new
  Set per standard set algebra", a new instance of the engine.\<close>

definition unsafe_SymmetricDifference :: "addr \<Rightarrow> addr \<Rightarrow> heap \<Rightarrow> addr \<times> heap" where
  "unsafe_SymmetricDifference m oth h =
     make_map (dlist_of_list (filter (\<lambda>x. \<not> Dlist.member (load h oth) x) (range_map h m) @
                      filter (\<lambda>x. \<not> Dlist.member (load h m) x) (range_map h oth))) h"

text \<open>Modelled from the spec: \<open>threadUnsafeSet.CartesianProduct\<close> is missing; "new Set
  of ordered pairs (a,b) for a in receiver, b in other".\<close>

definition unsafe_CartesianProduct :: "addr \<Rightarrow> addr \<Rightarrow> heap \<Rightarrow> addr \<times> heap" where
  "unsafe_CartesianProduct m oth h =
     make_map (dlist_of_list (concat (map (\<lambda>a. map (PairE a) (range_map h oth)) (range_map h m)))) h"

text \<open>Modelled from the spec: \<open>threadUnsafeSet.Clone\<close> is missing; "new Set with same
  elements, fully independent engine".\<close>

definition unsafe_Clone :: "addr \<Rightarrow> heap \<Rightarrow> addr \<times> heap" where
  "unsafe_Clone m h = make_map (load h m) h"

text \<open>Modelled from the spec: \<open>threadUnsafeSet.Pop\<close> is missing; "removes and returns
  an arbitrary element, or a none indicator if empty". The element taken is the first
  in the map's (arbitrary) order.\<close>

definition unsafe_Pop :: "addr \<Rightarrow> heap \<Rightarrow> elem option \<times> heap" where
  "unsafe_Pop m h =
     (case range_map h m of
        [] \<Rightarrow> (None, h)
      | item # _ \<Rightarrow> (Some item, delete_map m item h))"

text \<open>Modelled from the spec: \<open>threadUnsafeSet.PowerSet\<close> is missing; "new Set
  containing every subset of receiver, including empty set and receiver itself,
  cardinality 2^n; each subset is itself a full Set instance, not a reference into the
  parent". Every subset is a newly made map; the result is a newly made map whose keys
  are the pointers to them.\<close>

definition unsafe_PowerSet :: "addr \<Rightarrow> heap \<Rightarrow> addr \<times> heap" where
  "unsafe_PowerSet m h =
     (let subsets = subseqs (range_map h m);
          base = length (map_objs h);
          h1 = h\<lparr>map_objs := map_objs h @ map dlist_of_list subsets\<rparr>
      in make_map (dlist_of_list (map (\<lambda>k. SetE (UnsafePtr (base + k))) [0..<length subsets])) h1)"

text \<open>Modelled from the spec: \<open>threadUnsafeSet.Iter\<close> is missing; a stream "yielding
  every element", consumed here by a \<open>range\<close> loop that drains it.\<close>

definition unsafe_Iter :: "addr \<Rightarrow> heap \<Rightarrow> elem list" where
  "unsafe_Iter m h = range_map h m"

text \<open>Modelled from the spec: \<open>threadUnsafeSet.UnmarshalJSON\<close> and the JSON decoder it
  uses are missing; it "accepts a JSON array and replaces the receiver's contents with
  its elements (duplicates collapse per set semantics)" and "on invalid JSON fails with
  a deserialization error". The decoder is the parameter \<open>decode\<close>.\<close>

datatype json_error = DeserializationError

definition unsafe_UnmarshalJSON ::
    "(string \<Rightarrow> elem list option) \<Rightarrow> addr \<Rightarrow> string \<Rightarrow> heap \<Rightarrow> panic + (json_error option \<times> heap)"
where
  "unsafe_UnmarshalJSON decode m p h =
     (case decode p of
        None \<Rightarrow> Inr (Some DeserializationError, h)
      | Some vs \<Rightarrow>
          if m < length (map_objs h) then Inr (None, store m (dlist_of_list vs) h)
          else Inl NilMapWrite)"


section \<open>The thread-safe set\<close>

text \<open>
  Each definition follows the method of \<open>*threadSafeSet\<close> of the same name, statement
  by statement; \<open>recv\<close> is the receiver \<open>set\<close> and \<open>oth\<close> the asserted operand \<open>o\<close>.
  Calling a method on a nil receiver panics at its first access to \<open>set.l\<close>.
\<close>

definition Add :: "addr \<Rightarrow> elem \<Rightarrow> heap \<Rightarrow> panic + (bool \<times> heap)" where
  "Add recv i h =
     (case deref h recv of
        None \<Rightarrow> Inl NilDereference
      | Some r \<Rightarrow>
          (case unsafe_Add (S r) i (lock_call (Lock recv) h) of
             Inl e \<Rightarrow> Inl e
           | Inr (ret, h1) \<Rightarrow> Inr (ret, lock_call (Unlock recv) h1)))"

definition Contains :: "addr \<Rightarrow> elem list \<Rightarrow> heap \<Rightarrow> panic + (bool \<times> heap)" where
  "Contains recv is h =
     (case deref h recv of
        None \<Rightarrow> Inl NilDereference
      | Some r \<Rightarrow>
          (let h1 = lock_call (RLock recv) h;
               ret = unsafe_Contains (S r) is h1
           in Inr (ret, lock_call (RUnlock recv) h1)))"

definition Cardinality :: "addr \<Rightarrow> heap \<Rightarrow> panic + (nat \<times> heap)" where
  "Cardinality recv h =
     (case deref h recv of
        None \<Rightarrow> Inl NilDereference
      | Some r \<Rightarrow>
          (let h1 = lock_call (RLock recv) h
           in Inr (len_map h1 (S r), lock_call (RUnlock recv) h1)))"

definition IsSubset :: "addr \<Rightarrow> Set_iface \<Rightarrow> heap \<Rightarrow> panic + (bool \<times> heap)" where
  "IsSubset recv other h =
     (case other of
        UnsafePtr _ \<Rightarrow> Inl InterfaceConversion
      | SafePtr oth \<Rightarrow>
          (case deref h recv of
             None \<Rightarrow> Inl NilDereference
           | Some r \<Rightarrow>
               (case deref h oth of
                  None \<Rightarrow> Inl NilDereference
                | Some t \<Rightarrow>
                    (let h1 = lock_call (RLock recv) h;
                         h2 = lock_call (RLock oth) h1;
                         ret = unsafe_IsSubset (S r) (S t) h2;
                         h3 = lock_call (RUnlock recv) h2
                     in Inr (ret, lock_call (RUnlock oth) h3)))))"

text \<open>The two deferred \<open>RUnlock\<close> calls run in reverse order of their registration.\<close>

definition IsProperSubset :: "addr \<Rightarrow> Set_iface \<Rightarrow> heap \<Rightarrow> panic + (bool \<times> heap)" where
  "IsProperSubset recv other h =
     (case other of
        UnsafePtr _ \<Rightarrow> Inl InterfaceConversion
      | SafePtr oth \<Rightarrow>
          (case deref h recv of
             None \<Rightarrow> Inl NilDereference
           | Some r \<Rightarrow>
               (case deref h oth of
                  None \<Rightarrow> Inl NilDereference
                | Some t \<Rightarrow>
                    (let h1 = lock_call (RLock recv) h;
                         h2 = lock_call (RLock oth) h1;
                         ret = unsafe_IsProperSubset (S r) (S t) h2;
                         h3 = lock_call (RUnlock oth) h2
                     in Inr (ret, lock_call (RUnlock recv) h3)))))"

text \<open>Modelled from the spec: \<open>threadUnsafeSet.IsSubset\<close> as called through the
  interface is missing; the operand "must be the same concrete kind of set
  (same concurrency variant) -- fails with a type mismatch if not".\<close>

definition unsafe_IsSubset_iface :: "addr \<Rightarrow> Set_iface \<Rightarrow> heap \<Rightarrow> panic + (bool \<times> heap)" where
  "unsafe_IsSubset_iface m other h =
     (case other of
        UnsafePtr oth \<Rightarrow> Inr (unsafe_IsSubset m oth h, h)
      | SafePtr _ \<Rightarrow> Inl InterfaceConversion)"

text \<open>Modelled from the spec: likewise for \<open>threadUnsafeSet.IsProperSubset\<close> taking
  an interface operand.\<close>

definition unsafe_IsProperSubset_iface ::
    "addr \<Rightarrow> Set_iface \<Rightarrow> heap \<Rightarrow> panic + (bool \<times> heap)" where
  "unsafe_IsProperSubset_iface m other h =
     (case other of
        UnsafePtr oth \<Rightarrow> Inr (unsafe_IsProperSubset m oth h, h)
      | SafePtr _ \<Rightarrow> Inl InterfaceConversion)"

text \<open>\<open>other.IsSubset(set)\<close> is a call through the interface: it runs the method of
  the operand's own variant, with the receiver as its operand.\<close>

definition IsSuperset :: "addr \<Rightarrow> Set_iface \<Rightarrow> heap \<Rightarrow> panic + (bool \<times> heap)" where
  "IsSuperset recv other h =
     (case other of
        SafePtr oth \<Rightarrow> IsSubset oth (SafePtr recv) h
      | UnsafePtr u \<Rightarrow> unsafe_IsSubset_iface u (SafePtr recv) h)"

definition IsProperSuperset :: "addr \<Rightarrow> Set_iface \<Rightarrow> heap \<Rightarrow> panic + (bool \<times> heap)" where
  "IsProperSuperset recv other h =
     (case other of
        SafePtr oth \<Rightarrow> IsProperSubset oth (SafePtr recv) h
      | UnsafePtr u \<Rightarrow> unsafe_IsProperSubset_iface u (SafePtr recv) h)"

text \<open>The method \<open>Union\<close>; the name \<open>Union\<close> is taken in HOL.\<close>

definition Union_set :: "addr \<Rightarrow> Set_iface \<Rightarrow> heap \<Rightarrow> panic + (Set_iface \<times> heap)" where
  "Union_set recv other h =
     (case other of
        UnsafePtr _ \<Rightarrow> Inl InterfaceConversion
      | SafePtr oth \<Rightarrow>
          (case deref h recv of
             None \<Rightarrow> Inl NilDereference
           | Some r \<Rightarrow>
               (case deref h oth of
                  None \<Rightarrow> Inl NilDereference
                | Some t \<Rightarrow>
                    (let h1 = lock_call (RLock recv) h;
                         h2 = lock_call (RLock oth) h1;
                         (unsafeUnion, h3) = unsafe_Union (S r) (S t) h2;
                         (ret, h4) = new_threadSafeSet unsafeUnion h3;
                         h5 = lock_call (RUnlock recv) h4
                     in Inr (SafePtr ret, lock_call (RUnlock oth) h5)))))"

definition Intersect :: "addr \<Rightarrow> Set_iface \<Rightarrow> heap \<Rightarrow> panic + (Set_iface \<times> heap)" where
  "Intersect recv other h =
     (case other of
        UnsafePtr _ \<Rightarrow> Inl InterfaceConversion
      | SafePtr oth \<Rightarrow>
          (case deref h recv of
             None \<Rightarrow> Inl NilDereference
           | Some r \<Rightarrow>
               (case deref h oth of
                  None \<Rightarrow> Inl NilDereference
                | Some t \<Rightarrow>
                    (let h1 = lock_call (RLock recv) h;
                         h2 = lock_call (RLock oth) h1;
                         (unsafeIntersection, h3) = unsafe_Intersect (S r) (S t) h2;
                         (ret, h4) = new_threadSafeSet unsafeIntersection h3;
                         h5 = lock_call (RUnlock recv) h4
                     in Inr (SafePtr ret, lock_call (RUnlock oth) h5)))))"

definition Difference :: "addr \<Rightarrow> Set_iface \<Rightarrow> heap \<Rightarrow> panic + (Set_iface \<times> heap)" where
  "Difference recv other h =
     (case other of
        UnsafePtr _ \<Rightarrow> Inl InterfaceConversion
      | SafePtr oth \<Rightarrow>
          (case deref h recv of
             None \<Rightarrow> Inl NilDereference
           | Some r \<Rightarrow>
               (case deref h oth of
                  None \<Rightarrow> Inl NilDereference
                | Some t \<Rightarrow>
                    (let h1 = lock_call (RLock recv) h;
                         h2 = lock_call (RLock oth) h1;
                         (unsafeDifference, h3) = unsafe_Difference (S r) (S t) h2;
                         (ret, h4) = new_threadSafeSet unsafeDifference h3;
                         h5 = lock_call (RUnlock recv) h4
                     in Inr (SafePtr ret, lock_call (RUnlock oth) h5)))))"

definition SymmetricDifference ::
    "addr \<Rightarrow> Set_iface \<Rightarrow> heap \<Rightarrow> panic + (Set_iface \<times> heap)" where
  "SymmetricDifference recv other h =
     (case other of
        UnsafePtr _ \<Rightarrow> Inl InterfaceConversion
      | SafePtr oth \<Rightarrow>
          (case deref h recv of
             None \<Rightarrow> Inl NilDereference
           | Some r \<Rightarrow>
               (case deref h oth of
                  None \<Rightarrow> Inl NilDereference
                | Some t \<Rightarrow>
                    (let h1 = lock_call (RLock recv) h;
                         h2 = lock_call (RLock oth) h1;
                         (unsafeDifference, h3) = unsafe_SymmetricDifference (S r) (S t) h2;
                         (ret, h4) = new_threadSafeSet unsafeDifference h3;
                         h5 = lock_call (RUnlock recv) h4
                     in Inr (SafePtr ret, lock_call (RUnlock oth) h5)))))"

text \<open>\<open>set.S = newThreadUnsafeSet()\<close> overwrites the field; the old map object stays
  as it is.\<close>

definition Clear :: "addr \<Rightarrow> heap \<Rightarrow> panic + (unit \<times> heap)" where
  "Clear recv h =
     (case deref h recv of
        None \<Rightarrow> Inl NilDereference
      | Some r \<Rightarrow>
          (let h1 = lock_call (Lock recv) h;
               (m, h2) = newThreadUnsafeSet h1;
               h3 = h2\<lparr>set_objs := (set_objs h2)[recv := r\<lparr>S := m\<rparr>]\<rparr>
           in Inr ((), lock_call (Unlock recv) h3)))"

definition Remove :: "addr \<Rightarrow> elem \<Rightarrow> heap \<Rightarrow> panic + (unit \<times> heap)" where
  "Remove recv i h =
     (case deref h recv of
        None \<Rightarrow> Inl NilDereference
      | Some r \<Rightarrow>
          (let h1 = lock_call (Lock recv) h;
               h2 = delete_map (S r) i h1
           in Inr ((), lock_call (Unlock recv) h2)))"

definition Equal :: "addr \<Rightarrow> Set_iface \<Rightarrow> heap \<Rightarrow> panic + (bool \<times> heap)" where
  "Equal recv other h =
     (case other of
        UnsafePtr _ \<Rightarrow> Inl InterfaceConversion
      | SafePtr oth \<Rightarrow>
          (case deref h recv of
             None \<Rightarrow> Inl NilDereference
           | Some r \<Rightarrow>
               (case deref h oth of
                  None \<Rightarrow> Inl NilDereference
                | Some t \<Rightarrow>
                    (let h1 = lock_call (RLock recv) h;
                         h2 = lock_call (RLock oth) h1;
                         ret = unsafe_Equal (S r) (S t) h2;
                         h3 = lock_call (RUnlock recv) h2
                     in Inr (ret, lock_call (RUnlock oth) h3)))))"

definition Clone :: "addr \<Rightarrow> heap \<Rightarrow> panic + (Set_iface \<times> heap)" where
  "Clone recv h =
     (case deref h recv of
        None \<Rightarrow> Inl NilDereference
      | Some r \<Rightarrow>
          (let h1 = lock_call (RLock recv) h;
               (unsafeClone, h2) = unsafe_Clone (S r) h1;
               (ret, h3) = new_threadSafeSet unsafeClone h2
           in Inr (SafePtr ret, lock_call (RUnlock recv) h3)))"

text \<open>The loop \<open>for subset := range unsafePowerSet.Iter()\<close>: each element is asserted
  to be a \<open>*threadUnsafeSet\<close>, wrapped in a new struct that takes over its map, and
  added to \<open>ret\<close> through the locking \<open>Add\<close>.\<close>

fun PowerSet_loop :: "addr \<Rightarrow> elem list \<Rightarrow> heap \<Rightarrow> panic + heap" where
  "PowerSet_loop ret [] h = Inr h"
| "PowerSet_loop ret (sub # rest) h =
     (case sub of
        SetE (UnsafePtr unsafeSubset) \<Rightarrow>
          (let (p, h1) = new_threadSafeSet unsafeSubset h
           in case Add ret (SetE (SafePtr p)) h1 of
                Inl e \<Rightarrow> Inl e
              | Inr (_, h2) \<Rightarrow> PowerSet_loop ret rest h2)
      | _ \<Rightarrow> Inl InterfaceConversion)"

definition PowerSet :: "addr \<Rightarrow> heap \<Rightarrow> panic + (Set_iface \<times> heap)" where
  "PowerSet recv h =
     (case deref h recv of
        None \<Rightarrow> Inl NilDereference
      | Some r \<Rightarrow>
          (let h1 = lock_call (RLock recv) h;
               (unsafePowerSet, h2) = unsafe_PowerSet (S r) h1;
               h3 = lock_call (RUnlock recv) h2;
               (m, h4) = newThreadUnsafeSet h3;
               (ret, h5) = new_threadSafeSet m h4
           in case PowerSet_loop ret (unsafe_Iter unsafePowerSet h5) h5 of
                Inl e \<Rightarrow> Inl e
              | Inr h6 \<Rightarrow> Inr (SafePtr ret, h6)))"

text \<open>The result \<open>nil\<close> of \<open>Pop\<close> on an empty set is \<open>None\<close>.\<close>

definition Pop :: "addr \<Rightarrow> heap \<Rightarrow> panic + (elem option \<times> heap)" where
  "Pop recv h =
     (case deref h recv of
        None \<Rightarrow> Inl NilDereference
      | Some r \<Rightarrow>
          (let h1 = lock_call (Lock recv) h;
               (ret, h2) = unsafe_Pop (S r) h1
           in Inr (ret, lock_call (Unlock recv) h2)))"

definition CartesianProduct ::
    "addr \<Rightarrow> Set_iface \<Rightarrow> heap \<Rightarrow> panic + (Set_iface \<times> heap)" where
  "CartesianProduct recv other h =
     (case other of
        UnsafePtr _ \<Rightarrow> Inl InterfaceConversion
      | SafePtr oth \<Rightarrow>
          (case deref h recv of
             None \<Rightarrow> Inl NilDereference
           | Some r \<Rightarrow>
               (case deref h oth of
                  None \<Rightarrow> Inl NilDereference
                | Some t \<Rightarrow>
                    (let h1 = lock_call (RLock recv) h;
                         h2 = lock_call (RLock oth) h1;
                         (unsafeCartProduct, h3) = unsafe_CartesianProduct (S r) (S t) h2;
                         (ret, h4) = new_threadSafeSet unsafeCartProduct h3;
                         h5 = lock_call (RUnlock recv) h4
                     in Inr (SafePtr ret, lock_call (RUnlock oth) h5)))))"

text \<open>\<open>keys\<close> starts as an empty slice (its capacity, \<open>set.Cardinality()\<close>, does not
  show in its value) and grows by one \<open>append\<close> for each key the \<open>range\<close> visits.\<close>

definition ToSlice :: "addr \<Rightarrow> heap \<Rightarrow> panic + (elem list \<times> heap)" where
  "ToSlice recv h =
     (case Cardinality recv h of
        Inl e \<Rightarrow> Inl e
      | Inr (n, h1) \<Rightarrow>
          (let h2 = lock_call (RLock recv) h1;
               keys = fold (\<lambda>elem keys. keys @ [elem]) (range_map h2 (S (set_objs h2 ! recv))) []
           in Inr (keys, lock_call (RUnlock recv) h2)))"

definition UnmarshalJSON ::
    "(string \<Rightarrow> elem list option) \<Rightarrow> addr \<Rightarrow> string \<Rightarrow> heap \<Rightarrow> panic + (json_error option \<times> heap)"
where
  "UnmarshalJSON decode recv p h =
     (case deref h recv of
        None \<Rightarrow> Inl NilDereference
      | Some r \<Rightarrow>
          (case unsafe_UnmarshalJSON decode (S r) p (lock_call (RLock recv) h) of
             Inl e \<Rightarrow> Inl e
           | Inr (err, h1) \<Rightarrow> Inr (err, lock_call (RUnlock recv) h1)))"

text \<open>The type assertion \<open>other.(*threadSafeSet)\<close> succeeds exactly on these values.\<close>

definition is_threadSafe :: "Set_iface \<Rightarrow> bool" where
  "is_threadSafe other = (case other of SafePtr _ \<Rightarrow> True | UnsafePtr _ \<Rightarrow> False)"


section \<open>Example heaps\<close>

text \<open>A heap holding one thread-safe set, at address 0, with the given keys.\<close>

definition one_set_heap :: "elem list \<Rightarrow> heap" where
  "one_set_heap xs =
     \<lparr>map_objs = [dlist_of_list xs], set_objs = [\<lparr>S = 0\<rparr>], lock_log = []\<rparr>"

text \<open>A heap holding two thread-safe sets, at addresses 0 and 1, each with its own map.\<close>

definition two_set_heap :: "elem list \<Rightarrow> elem list \<Rightarrow> heap" where
  "two_set_heap xs ys =
     \<lparr>map_objs = [dlist_of_list xs, dlist_of_list ys],
      set_objs = [\<lparr>S = 0\<rparr>, \<lparr>S = 1\<rparr>], lock_log = []\<rparr>"


section \<open>Auxiliary definitions\<close>

text \<open>The heap in which the loop of \<open>PowerSet\<close> starts: the engine's power set and
  the empty result set \<open>ret\<close> have been allocated.\<close>

definition before_loop :: "heap \<Rightarrow> addr \<Rightarrow> heap" where
  "before_loop h recv =
     (let subsets = subseqs (range_map h (S (set_objs h ! recv)));
          n = length (map_objs h); k = length subsets
      in h\<lparr>lock_log := lock_log h @ [RLock recv, RUnlock recv],
          map_objs := map_objs h @ map dlist_of_list subsets
                       @ [dlist_of_list (map (\<lambda>j. SetE (UnsafePtr (n + j))) [0..<k]),
                          Dlist.empty],
          set_objs := set_objs h @ [\<lparr>S = n + k + 1\<rparr>]\<rparr>)"


text \<open>The heap after a binary operation that built the new map \<open>d\<close>: the four lock
  calls are logged, the map and the struct that refers to it are appended.\<close>

definition result_heap :: "elem dlist \<Rightarrow> addr \<Rightarrow> addr \<Rightarrow> heap \<Rightarrow> heap" where
  "result_heap d a b h =
     h\<lparr>map_objs := map_objs h @ [d],
       set_objs := set_objs h @ [\<lparr>S = length (map_objs h)\<rparr>],
       lock_log := lock_log h @ [RLock a, RLock b, RUnlock a, RUnlock b]\<rparr>"


section \<open>Basic facts about the store\<close>

lemma load_lock_call [simp]: "load (lock_call ev h) m = load h m"
  by (simp add: load_def lock_call_def)

lemma map_objs_lock_call [simp]: "map_objs (lock_call ev h) = map_objs h"
  by (simp add: lock_call_def)

lemma set_objs_lock_call [simp]: "set_objs (lock_call ev h) = set_objs h"
  by (simp add: lock_call_def)

lemma lock_log_lock_call [simp]: "lock_log (lock_call ev h) = lock_log h @ [ev]"
  by (simp add: lock_call_def)

lemma load_store_same [simp]: "m < length (map_objs h) \<Longrightarrow> load (store m d h) m = d"
  by (simp add: load_def store_def)

lemma load_store_other [simp]: "m' \<noteq> m \<Longrightarrow> load (store m d h) m' = load h m'"
  by (simp add: load_def store_def)

lemma set_objs_store [simp]: "set_objs (store m d h) = set_objs h"
  by (simp add: store_def)

lemma lock_log_store [simp]: "lock_log (store m d h) = lock_log h"
  by (simp add: store_def)

lemma length_map_objs_store [simp]: "length (map_objs (store m d h)) = length (map_objs h)"
  by (simp add: store_def)

lemma deref_live: "live h a \<Longrightarrow> deref h a = Some (set_objs h ! a)"
  by (simp add: live_def deref_def)

lemma range_map_lock_call [simp]: "range_map (lock_call ev h) m = range_map h m"
  by (simp add: range_map_def)

lemma live_lock_call [simp]: "live (lock_call ev h) a = live h a"
  by (simp add: live_def)

lemma deref_lock_call [simp]: "deref (lock_call ev h) a = deref h a"
  by (simp add: deref_def)

lemma range_map_delete_map:
  "range_map (delete_map m x h) m' =
     (if m' = m then remove1 x (range_map h m) else range_map h m')"
  by (simp add: range_map_def delete_map_def load_def store_def)

lemma set_objs_delete_map [simp]: "set_objs (delete_map m x h) = set_objs h"
  by (simp add: delete_map_def)

lemma length_map_objs_delete_map [simp]:
  "length (map_objs (delete_map m x h)) = length (map_objs h)"
  by (simp add: delete_map_def)

lemma live_delete_map [simp]: "live (delete_map m x h) a = live h a"
  by (simp add: live_def)

lemma distinct_range_map [simp]: "distinct (range_map h m)"
  by (simp add: range_map_def)

lemma live_one_set_heap [simp]: "live (one_set_heap xs) 0"
  by (simp add: live_def one_set_heap_def)

lemma live_two_set_heap [simp]: "live (two_set_heap xs ys) 0" "live (two_set_heap xs ys) (Suc 0)"
  by (simp_all add: live_def two_set_heap_def)


section \<open>What the read-only methods return\<close>

lemma Cardinality_value:
  "live h recv \<Longrightarrow>
   value_of (Cardinality recv h) = Some (length (range_map h (S (set_objs h ! recv))))"
  by (simp add: Cardinality_def value_of_def len_map_def range_map_def deref_live
        Dlist.length_def)

lemma Contains_value:
  "live h recv \<Longrightarrow> value_of (Contains recv is h) = Some (set is \<subseteq> elems h recv)"
  by (auto simp: Contains_def unsafe_Contains_def value_of_def elems_def range_map_def
        deref_live Dlist.member_def list_all_iff)


section \<open>Operands of the other variant\<close>

text \<open>
  Claim C2. Each of the binary operations \<open>IsSubset\<close>, \<open>IsProperSubset\<close>, \<open>Union\<close>,
  \<open>Intersect\<close>, \<open>Difference\<close>, \<open>SymmetricDifference\<close>, \<open>Equal\<close> and \<open>CartesianProduct\<close>
  of a thread-safe set, called with an operand that is not a thread-safe set, fails
  with the panic of the type assertion and returns no result, whatever the receiver
  and the heap are.
\<close>

theorem binary_ops_reject_other_variant:
  "\<not> is_threadSafe other \<Longrightarrow>
     IsSubset recv other h = Inl InterfaceConversion
   \<and> IsProperSubset recv other h = Inl InterfaceConversion
   \<and> Union_set recv other h = Inl InterfaceConversion
   \<and> Intersect recv other h = Inl InterfaceConversion
   \<and> Difference recv other h = Inl InterfaceConversion
   \<and> SymmetricDifference recv other h = Inl InterfaceConversion
   \<and> Equal recv other h = Inl InterfaceConversion
   \<and> CartesianProduct recv other h = Inl InterfaceConversion"
  by (cases other)
     (simp_all add: is_threadSafe_def IsSubset_def IsProperSubset_def Union_set_def
        Intersect_def Difference_def SymmetricDifference_def Equal_def CartesianProduct_def)

theorem binary_ops_reject_other_variant_witness:
  "\<not> is_threadSafe (UnsafePtr 1)
   \<and> IsSubset 0 (UnsafePtr 1) (two_set_heap [IntE 1] [IntE 1, IntE 2]) = Inl InterfaceConversion
   \<and> Union_set 0 (UnsafePtr 1) (two_set_heap [IntE 1] [IntE 1, IntE 2]) = Inl InterfaceConversion
   \<and> Equal 0 (UnsafePtr 1) (two_set_heap [IntE 1] [IntE 1, IntE 2]) = Inl InterfaceConversion"
proof -
  have other: "\<not> is_threadSafe (UnsafePtr 1)"
    by (simp add: is_threadSafe_def)
  show ?thesis
    using other
      binary_ops_reject_other_variant [OF other, of 0 "two_set_heap [IntE 1] [IntE 1, IntE 2]"]
    by simp
qed


section \<open>Add\<close>

text \<open>
  Claim C4. For a thread-safe set and an element \<open>e\<close>, \<open>Add\<close> returns true exactly when
  \<open>Contains\<close> of \<open>e\<close> was false before the call, and \<open>Contains\<close> of \<open>e\<close> is true after
  it. In particular, on the set \<open>{1,2,3}\<close> the call \<open>Add(4)\<close> returns true and the
  cardinality becomes 4; a second \<open>Add(4)\<close> returns false and the cardinality stays 4.
\<close>

theorem Add_true_iff_absent:
  "(live h recv \<longrightarrow>
      (\<exists>ret h'. Add recv e h = Inr (ret, h')
         \<and> (ret \<longleftrightarrow> value_of (Contains recv [e] h) = Some False)
         \<and> value_of (Contains recv [e] h') = Some True))
   \<and> (\<exists>h1 h2. Add 0 (IntE 4) (one_set_heap [IntE 1, IntE 2, IntE 3]) = Inr (True, h1)
         \<and> value_of (Cardinality 0 h1) = Some 4
         \<and> Add 0 (IntE 4) h1 = Inr (False, h2)
         \<and> value_of (Cardinality 0 h2) = Some 4)"
proof
  show "live h recv \<longrightarrow>
      (\<exists>ret h'. Add recv e h = Inr (ret, h')
         \<and> (ret \<longleftrightarrow> value_of (Contains recv [e] h) = Some False)
         \<and> value_of (Contains recv [e] h') = Some True)"
    by (auto simp: Add_def Contains_def unsafe_Add_def unsafe_Contains_def value_of_def
          deref_live live_def Dlist.member_def)
next
  show "\<exists>h1 h2. Add 0 (IntE 4) (one_set_heap [IntE 1, IntE 2, IntE 3]) = Inr (True, h1)
         \<and> value_of (Cardinality 0 h1) = Some 4
         \<and> Add 0 (IntE 4) h1 = Inr (False, h2)
         \<and> value_of (Cardinality 0 h2) = Some 4"
    by (simp add: Add_def Cardinality_def unsafe_Add_def value_of_def len_map_def deref_def
          load_def store_def lock_call_def one_set_heap_def Dlist.length_def Dlist.member_def)
qed

theorem Add_true_iff_absent_witness:
  "live (one_set_heap [IntE 1, IntE 2]) 0
   \<and> (\<exists>ret h'. Add 0 (IntE 2) (one_set_heap [IntE 1, IntE 2]) = Inr (ret, h')
         \<and> (ret \<longleftrightarrow> value_of (Contains 0 [IntE 2] (one_set_heap [IntE 1, IntE 2])) = Some False)
         \<and> value_of (Contains 0 [IntE 2] h') = Some True)"
proof -
  have l: "live (one_set_heap [IntE 1, IntE 2]) 0"
    by (simp add: live_def one_set_heap_def)
  show ?thesis
    using l Add_true_iff_absent [of "one_set_heap [IntE 1, IntE 2]" 0 "IntE 2", THEN conjunct1]
    by simp
qed


section \<open>Superset checks\<close>

text \<open>
  Claim C5. For thread-safe sets \<open>A\<close> and \<open>B\<close>, \<open>A.IsSuperset(B)\<close> is the call
  \<open>B.IsSubset(A)\<close> and \<open>A.IsProperSuperset(B)\<close> is the call \<open>B.IsProperSubset(A)\<close>: the
  same result, the same panic if any, and the same lock calls.
\<close>

theorem superset_is_reversed_subset:
  "IsSuperset a (SafePtr b) h = IsSubset b (SafePtr a) h
   \<and> IsProperSuperset a (SafePtr b) h = IsProperSubset b (SafePtr a) h"
  by (simp add: IsSuperset_def IsProperSuperset_def)


section \<open>Pop\<close>

lemma Pop_empty:
  "live h recv \<Longrightarrow> range_map h (S (set_objs h ! recv)) = [] \<Longrightarrow>
   Pop recv h = Inr (None, lock_call (Unlock recv) (lock_call (Lock recv) h))"
  by (simp add: Pop_def unsafe_Pop_def deref_live)

lemma Pop_nonempty:
  "live h recv \<Longrightarrow> range_map h (S (set_objs h ! recv)) = x # xs \<Longrightarrow>
   Pop recv h = Inr (Some x, lock_call (Unlock recv)
                      (delete_map (S (set_objs h ! recv)) x (lock_call (Lock recv) h)))"
  by (simp add: Pop_def unsafe_Pop_def deref_live)

text \<open>
  Claim C6. \<open>Pop\<close> on a thread-safe set of cardinality \<open>n\<close> returns. If \<open>n = 0\<close> it
  returns the "no element" value and the cardinality stays 0. If \<open>n \<noteq> 0\<close> it returns an
  element that \<open>Contains\<close> reported as present before the call, the cardinality
  afterwards is \<open>n - 1\<close>, and \<open>Contains\<close> of that element is false afterwards.
\<close>

theorem Pop_removes_one_element:
  assumes "live h recv"
  shows "\<exists>ret h' n. Pop recv h = Inr (ret, h')
           \<and> value_of (Cardinality recv h) = Some n
           \<and> (n = 0 \<longrightarrow> ret = None \<and> value_of (Cardinality recv h') = Some 0)
           \<and> (n \<noteq> 0 \<longrightarrow> (\<exists>x. ret = Some x
                  \<and> value_of (Contains recv [x] h) = Some True
                  \<and> value_of (Cardinality recv h') = Some (n - 1)
                  \<and> value_of (Contains recv [x] h') = Some False))"
proof (cases "range_map h (S (set_objs h ! recv))")
  case Nil
  with assms show ?thesis
    by (simp add: Pop_empty Cardinality_value)
next
  case (Cons x xs)
  have d: "distinct (x # xs)"
    using distinct_range_map [of h "S (set_objs h ! recv)"] Cons by simp
  with assms Cons show ?thesis
    by (simp add: Pop_nonempty Cardinality_value Contains_value elems_def
          range_map_delete_map)
qed

theorem Pop_removes_one_element_witness:
  "live (one_set_heap [IntE 7, IntE 8]) 0
   \<and> (\<exists>ret h' n. Pop 0 (one_set_heap [IntE 7, IntE 8]) = Inr (ret, h')
           \<and> value_of (Cardinality 0 (one_set_heap [IntE 7, IntE 8])) = Some n
           \<and> (n = 0 \<longrightarrow> ret = None \<and> value_of (Cardinality 0 h') = Some 0)
           \<and> (n \<noteq> 0 \<longrightarrow> (\<exists>x. ret = Some x
                  \<and> value_of (Contains 0 [x] (one_set_heap [IntE 7, IntE 8])) = Some True
                  \<and> value_of (Cardinality 0 h') = Some (n - 1)
                  \<and> value_of (Contains 0 [x] h') = Some False)))"
proof -
  have l: "live (one_set_heap [IntE 7, IntE 8]) 0"
    by (simp add: live_def one_set_heap_def)
  show ?thesis
    using l Pop_removes_one_element [OF l] by simp
qed


section \<open>ToSlice\<close>

lemma fold_append_keys: "fold (\<lambda>elem keys. keys @ [elem]) xs acc = acc @ xs"
  by (induction xs arbitrary: acc) simp_all

text \<open>
  Claim C10. \<open>ToSlice\<close> on a thread-safe set returns a slice whose length is the set's
  \<open>Cardinality\<close>, without duplicates, and whose entries are exactly the elements for
  which \<open>Contains\<close> is true.
\<close>

theorem ToSlice_lists_each_element_once:
  assumes "live h recv"
  shows "\<exists>keys h'. ToSlice recv h = Inr (keys, h')
           \<and> value_of (Cardinality recv h) = Some (length keys)
           \<and> distinct keys
           \<and> (\<forall>e. e \<in> set keys \<longleftrightarrow> value_of (Contains recv [e] h) = Some True)"
  using assms
  by (simp add: ToSlice_def Cardinality_def Contains_def unsafe_Contains_def value_of_def
        len_map_def range_map_def deref_live fold_append_keys Dlist.length_def
        Dlist.member_def)

theorem ToSlice_lists_each_element_once_witness:
  "live (one_set_heap [StrE ''a'', StrE ''b'', StrE ''a'']) 0
   \<and> (\<exists>keys h'. ToSlice 0 (one_set_heap [StrE ''a'', StrE ''b'', StrE ''a'']) = Inr (keys, h')
           \<and> value_of (Cardinality 0 (one_set_heap [StrE ''a'', StrE ''b'', StrE ''a'']))
               = Some (length keys)
           \<and> distinct keys
           \<and> (\<forall>e. e \<in> set keys \<longleftrightarrow>
                 value_of (Contains 0 [e] (one_set_heap [StrE ''a'', StrE ''b'', StrE ''a'']))
                   = Some True))"
proof -
  have l: "live (one_set_heap [StrE ''a'', StrE ''b'', StrE ''a'']) 0"
    by (simp add: live_def one_set_heap_def)
  show ?thesis
    using l ToSlice_lists_each_element_once [OF l] by simp
qed


section \<open>PowerSet\<close>

lemma Add_fresh:
  assumes "ret < length (set_objs h)" "S (set_objs h ! ret) < length (map_objs h)"
    and "e \<notin> set (range_map h (S (set_objs h ! ret)))"
  shows "Add ret e h = Inr (True, lock_call (Unlock ret)
            (store (S (set_objs h ! ret)) (Dlist.insert e (load h (S (set_objs h ! ret))))
               (lock_call (Lock ret) h)))"
  using assms
  by (simp add: Add_def unsafe_Add_def deref_def range_map_def Dlist.member_def)

lemma range_map_store:
  "m < length (map_objs h) \<Longrightarrow>
   range_map (store m d h) m' = (if m' = m then list_of_dlist d else range_map h m')"
  by (simp add: range_map_def)

lemma PowerSet_loop_result:
  assumes "ret < length (set_objs h)" "S (set_objs h ! ret) = m" "m < length (map_objs h)"
    and "\<forall>j\<ge>length (set_objs h). SetE (SafePtr j) \<notin> set (range_map h m)"
  shows "\<exists>h' d. PowerSet_loop ret (map (\<lambda>u. SetE (UnsafePtr u)) us) h = Inr h'
           \<and> set_objs h' = set_objs h @ map (\<lambda>u. \<lparr>S = u\<rparr>) us
           \<and> map_objs h' = (map_objs h)[m := d]
           \<and> list_of_dlist d =
               rev (map (\<lambda>j. SetE (SafePtr j))
                      [length (set_objs h) ..< length (set_objs h) + length us])
               @ range_map h m"
  using assms
proof (induction us arbitrary: h)
  case Nil
  then show ?case
    by (auto simp: range_map_def load_def intro!: exI [of _ "load h m"])
next
  case (Cons u us)
  let ?p = "length (set_objs h)"
  let ?h1 = "h\<lparr>set_objs := set_objs h @ [\<lparr>S = u\<rparr>]\<rparr>"
  let ?e = "SetE (SafePtr ?p)"
  let ?h2 = "lock_call (Unlock ret) (store m (Dlist.insert ?e (load ?h1 m)) (lock_call (Lock ret) ?h1))"
  have rm1: "range_map ?h1 m = range_map h m"
    by (simp add: range_map_def load_def)
  have fresh: "?e \<notin> set (range_map ?h1 m)"
    using Cons.prems(4) rm1 by simp
  have add: "Add ret ?e ?h1 = Inr (True, ?h2)"
    using Add_fresh [of ret ?h1 ?e] Cons.prems(1-3) fresh
    by (simp add: nth_append)
  have step: "PowerSet_loop ret (map (\<lambda>u. SetE (UnsafePtr u)) (u # us)) h
                = PowerSet_loop ret (map (\<lambda>u. SetE (UnsafePtr u)) us) ?h2"
    using add by (simp add: new_threadSafeSet_def)
  have rm2: "range_map ?h2 m = ?e # range_map h m"
    using Cons.prems(3) fresh rm1
    by (simp add: range_map_store) (simp add: range_map_def)
  have p1: "ret < length (set_objs ?h2)" using Cons.prems(1) by simp
  have p2: "S (set_objs ?h2 ! ret) = m" using Cons.prems(1,2) by (simp add: nth_append)
  have p3: "m < length (map_objs ?h2)" using Cons.prems(3) by simp
  have p4: "\<forall>j\<ge>length (set_objs ?h2). SetE (SafePtr j) \<notin> set (range_map ?h2 m)"
    using Cons.prems(4) rm2 by auto
  from Cons.IH [OF p1 p2 p3 p4] obtain h' d where
    r: "PowerSet_loop ret (map (\<lambda>u. SetE (UnsafePtr u)) us) ?h2 = Inr h'"
       "set_objs h' = set_objs ?h2 @ map (\<lambda>u. \<lparr>S = u\<rparr>) us"
       "map_objs h' = (map_objs ?h2)[m := d]"
       "list_of_dlist d =
               rev (map (\<lambda>j. SetE (SafePtr j))
                      [length (set_objs ?h2) ..< length (set_objs ?h2) + length us])
               @ range_map ?h2 m"
    by blast
  have "map_objs h' = (map_objs h)[m := d]"
    using r(3) by (simp add: store_def)
  moreover have "list_of_dlist d =
               rev (map (\<lambda>j. SetE (SafePtr j)) [?p ..< ?p + length (u # us)]) @ range_map h m"
  proof -
    have "[?p ..< ?p + length (u # us)] = ?p # [Suc ?p ..< Suc ?p + length us]"
      by (simp add: upt_conv_Cons del: upt_Suc)
    then show ?thesis
      using r(4) rm2 by (simp del: upt_Suc)
  qed
  ultimately show ?case
    using step r(1,2) by auto
qed

lemma remdups_UnsafePtr_upt:
  "remdups (map (\<lambda>k. SetE (UnsafePtr (base + k))) [0..<n]) =
     map (\<lambda>u. SetE (UnsafePtr u)) [base..<base + n]"
proof -
  have "distinct (map (\<lambda>k. SetE (UnsafePtr (base + k))) [0..<n])"
    by (simp add: distinct_map inj_on_def)
  moreover have "map (\<lambda>k. SetE (UnsafePtr (base + k))) [0..<n] =
      map (\<lambda>u. SetE (UnsafePtr u)) [base..<base + n]"
    by (induction n) simp_all
  ultimately show ?thesis
    by (simp add: distinct_remdups_id)
qed

lemma PowerSet_unfold:
  assumes "live h recv"
  shows "PowerSet recv h =
     (case PowerSet_loop (length (set_objs h))
             (map (\<lambda>u. SetE (UnsafePtr u))
                [length (map_objs h) ..<
                  length (map_objs h) + length (subseqs (range_map h (S (set_objs h ! recv))))])
             (before_loop h recv) of
        Inl e \<Rightarrow> Inl e
      | Inr h6 \<Rightarrow> Inr (SafePtr (length (set_objs h)), h6))"
  using assms
  by (simp add: PowerSet_def unsafe_PowerSet_def newThreadUnsafeSet_def make_map_def
        new_threadSafeSet_def unsafe_Iter_def deref_live before_loop_def Let_def
        lock_call_def range_map_def load_def nth_append remdups_UnsafePtr_upt live_def
      del: upt_Suc cong: sum.case_cong)

lemma PowerSet_result:
  assumes l: "live h recv"
    and subs: "subs = subseqs (range_map h (S (set_objs h ! recv)))"
    and n: "n = length (map_objs h)" and k: "k = length subs"
    and s: "s = length (set_objs h)"
  shows "\<exists>h' d. PowerSet recv h = Inr (SafePtr s, h')
     \<and> set_objs h' = set_objs h @ [\<lparr>S = n + k + 1\<rparr>] @ map (\<lambda>u. \<lparr>S = u\<rparr>) [n..<n + k]
     \<and> map_objs h' = map_objs h @ map dlist_of_list subs
                       @ [dlist_of_list (map (\<lambda>j. SetE (UnsafePtr (n + j))) [0..<k]), d]
     \<and> list_of_dlist d = rev (map (\<lambda>j. SetE (SafePtr j)) [s + 1 ..< s + 1 + k])"
proof -
  let ?h5 = "before_loop h recv"
  let ?m = "n + k + 1"
  have so: "set_objs ?h5 = set_objs h @ [\<lparr>S = ?m\<rparr>]"
    by (simp add: before_loop_def Let_def subs n k)
  have mo: "map_objs ?h5 = map_objs h @ map dlist_of_list subs
              @ [dlist_of_list (map (\<lambda>j. SetE (UnsafePtr (n + j))) [0..<k]), Dlist.empty]"
    by (simp add: before_loop_def Let_def subs n k)
  have p1: "s < length (set_objs ?h5)" by (simp add: so s)
  have p2: "S (set_objs ?h5 ! s) = ?m" by (simp add: so s)
  have p3: "?m < length (map_objs ?h5)" by (simp add: mo n k)
  have empty: "range_map ?h5 ?m = []"
    using p3 by (simp add: range_map_def load_def) (simp add: mo n k nth_append)
  have p4: "\<forall>j\<ge>length (set_objs ?h5). SetE (SafePtr j) \<notin> set (range_map ?h5 ?m)"
    using empty by simp
  from PowerSet_loop_result [OF p1 p2 p3 p4, of "[n..<n + k]"] obtain h' d where
    r: "PowerSet_loop s (map (\<lambda>u. SetE (UnsafePtr u)) [n..<n + k]) ?h5 = Inr h'"
       "set_objs h' = set_objs ?h5 @ map (\<lambda>u. \<lparr>S = u\<rparr>) [n..<n + k]"
       "map_objs h' = (map_objs ?h5)[?m := d]"
       "list_of_dlist d =
          rev (map (\<lambda>j. SetE (SafePtr j))
                 [length (set_objs ?h5) ..< length (set_objs ?h5) + length [n..<n + k]])
          @ range_map ?h5 ?m"
    by blast
  have "PowerSet recv h = Inr (SafePtr s, h')"
    using PowerSet_unfold [OF l] r(1) by (simp add: subs n k s)
  moreover have "set_objs h' = set_objs h @ [\<lparr>S = ?m\<rparr>] @ map (\<lambda>u. \<lparr>S = u\<rparr>) [n..<n + k]"
    using r(2) so by simp
  moreover have "map_objs h' = map_objs h @ map dlist_of_list subs
                       @ [dlist_of_list (map (\<lambda>j. SetE (UnsafePtr (n + j))) [0..<k]), d]"
    using r(3) mo by (simp add: n k list_update_append)
  moreover have "list_of_dlist d = rev (map (\<lambda>j. SetE (SafePtr j)) [s + 1 ..< s + 1 + k])"
    using r(4) empty so by (simp add: s del: upt_Suc)
  ultimately show ?thesis by blast
qed

lemma PowerSet_members:
  assumes l: "live h recv"
    and subs: "subs = subseqs (range_map h (S (set_objs h ! recv)))"
    and n: "n = length (map_objs h)" and k: "k = length subs"
    and s: "s = length (set_objs h)"
  shows "\<exists>h'. PowerSet recv h = Inr (SafePtr s, h')
     \<and> live h' s
     \<and> live h' recv
     \<and> range_map h' (S (set_objs h' ! recv)) = range_map h (S (set_objs h ! recv))
     \<and> range_map h' (S (set_objs h' ! s)) = rev (map (\<lambda>j. SetE (SafePtr j)) [s + 1 ..< s + 1 + k])
     \<and> (\<forall>i<k. live h' (s + 1 + i) \<and> S (set_objs h' ! (s + 1 + i)) = n + i
              \<and> range_map h' (n + i) = subs ! i)"
proof -
  from PowerSet_result [OF l subs n k s] obtain h' d where
    r: "PowerSet recv h = Inr (SafePtr s, h')"
       "set_objs h' = set_objs h @ [\<lparr>S = n + k + 1\<rparr>] @ map (\<lambda>u. \<lparr>S = u\<rparr>) [n..<n + k]"
       "map_objs h' = map_objs h @ map dlist_of_list subs
                       @ [dlist_of_list (map (\<lambda>j. SetE (UnsafePtr (n + j))) [0..<k]), d]"
       "list_of_dlist d = rev (map (\<lambda>j. SetE (SafePtr j)) [s + 1 ..< s + 1 + k])"
    by blast
  have len: "length (map_objs h') = n + k + 2" "length (set_objs h') = s + 1 + k"
    by (simp_all add: r(2,3) n k s)
  have at_s: "set_objs h' ! s = \<lparr>S = n + k + 1\<rparr>"
    by (simp add: r(2) s nth_append)
  have last: "map_objs h' ! (n + k + 1) = d"
    by (simp add: r(3) n k nth_append)
  have "live h' s"
    using at_s len by (simp add: live_def)
  moreover have "live h' recv"
    using l by (simp add: live_def r(2,3) nth_append)
  moreover have "range_map h' (S (set_objs h' ! recv)) = range_map h (S (set_objs h ! recv))"
    using l by (simp add: live_def range_map_def load_def r(2,3) nth_append)
  moreover have "range_map h' (S (set_objs h' ! s)) =
      rev (map (\<lambda>j. SetE (SafePtr j)) [s + 1 ..< s + 1 + k])"
    using at_s last len r(4) by (simp add: range_map_def load_def)
  moreover have "\<forall>i<k. live h' (s + 1 + i) \<and> S (set_objs h' ! (s + 1 + i)) = n + i
              \<and> range_map h' (n + i) = subs ! i"
  proof (intro allI impI)
    fix i assume i: "i < k"
    have st: "set_objs h' ! (s + 1 + i) = \<lparr>S = n + i\<rparr>"
      using i by (simp add: r(2) s nth_append)
    have "subs ! i \<in> set (subseqs (range_map h (S (set_objs h ! recv))))"
      using i k subs by simp
    then have "distinct (subs ! i)"
      by (rule subseqs_distinctD) simp
    then have "range_map h' (n + i) = subs ! i"
      using i len by (simp add: range_map_def load_def r(3) n k nth_append distinct_remdups_id)
    with st i len show "live h' (s + 1 + i) \<and> S (set_objs h' ! (s + 1 + i)) = n + i
              \<and> range_map h' (n + i) = subs ! i"
      by (simp add: live_def)
  qed
  ultimately show ?thesis using r(1) by blast
qed

lemma Equal_value:
  "live h a \<Longrightarrow> live h b \<Longrightarrow>
   value_of (Equal a (SafePtr b) h) =
     Some (length (range_map h (S (set_objs h ! a))) = length (range_map h (S (set_objs h ! b)))
           \<and> elems h a \<subseteq> elems h b)"
  by (auto simp: Equal_def unsafe_Equal_def value_of_def len_map_def elems_def range_map_def
        deref_live Dlist.member_def Dlist.length_def list_all_iff)

text \<open>
  Claim C7. \<open>PowerSet\<close> on a thread-safe set \<open>A\<close> of cardinality \<open>n\<close> returns a newly
  allocated thread-safe set of cardinality \<open>2 ^ n\<close> and leaves \<open>A\<close> as it was. Every
  member is a pointer to a thread-safe set of its own (a new struct with a new map)
  whose elements are elements of \<open>A\<close>; every subset of \<open>A\<close> is the element set of some
  member; one member is empty and one member is \<open>Equal\<close> to \<open>A\<close>.
\<close>

theorem PowerSet_holds_every_subset:
  assumes l: "live h recv"
  shows "\<exists>ps h' n. PowerSet recv h = Inr (SafePtr ps, h')
     \<and> value_of (Cardinality recv h) = Some n
     \<and> length (set_objs h) \<le> ps \<and> live h' ps
     \<and> value_of (Cardinality ps h') = Some (2 ^ n)
     \<and> elems h' recv = elems h recv
     \<and> (\<forall>e \<in> elems h' ps. \<exists>p. e = SetE (SafePtr p) \<and> live h' p
            \<and> length (set_objs h) \<le> p \<and> length (map_objs h) \<le> S (set_objs h' ! p)
            \<and> elems h' p \<subseteq> elems h recv)
     \<and> (\<forall>X. X \<subseteq> elems h recv \<longrightarrow> (\<exists>p. SetE (SafePtr p) \<in> elems h' ps \<and> elems h' p = X))
     \<and> (\<exists>p. SetE (SafePtr p) \<in> elems h' ps \<and> value_of (Cardinality p h') = Some 0)
     \<and> (\<exists>p. SetE (SafePtr p) \<in> elems h' ps \<and> value_of (Equal p (SafePtr recv) h') = Some True)"
proof -
  define xs where "xs = range_map h (S (set_objs h ! recv))"
  define subs where "subs = subseqs xs"
  define n where "n = length (map_objs h)"
  define k where "k = length subs"
  define s where "s = length (set_objs h)"
  from PowerSet_members [OF l subs_def [unfolded xs_def] n_def k_def s_def] obtain h' where
    r: "PowerSet recv h = Inr (SafePtr s, h')" "live h' s" "live h' recv"
       "range_map h' (S (set_objs h' ! recv)) = xs"
       "range_map h' (S (set_objs h' ! s)) = rev (map (\<lambda>j. SetE (SafePtr j)) [s + 1 ..< s + 1 + k])"
       "\<forall>i<k. live h' (s + 1 + i) \<and> S (set_objs h' ! (s + 1 + i)) = n + i
              \<and> range_map h' (n + i) = subs ! i"
    unfolding xs_def by blast
  have k2: "k = 2 ^ length xs"
    by (simp add: k_def subs_def length_subseqs)
  have member: "elems h' (s + 1 + i) = set (subs ! i)" if "i < k" for i
    using r(6) that by (simp add: elems_def)
  have in_ps: "SetE (SafePtr (s + 1 + i)) \<in> elems h' s" if "i < k" for i
    unfolding elems_def r(5) set_rev set_map set_upt
    by (rule imageI) (use that in simp)
  have sub: "set (subs ! i) \<subseteq> set xs" if "i < k" for i
  proof -
    have "subs ! i \<in> set (subseqs xs)" using that by (simp add: k_def subs_def)
    then have "set (subs ! i) \<in> set ` set (subseqs xs)" by (rule imageI)
    then show ?thesis by (simp add: subseqs_powset)
  qed
  have pick: "\<exists>i<k. subs ! i = ys" if "ys \<in> set (subseqs xs)" for ys
    using that by (simp add: in_set_conv_nth k_def subs_def)
  have c1: "value_of (Cardinality recv h) = Some (length xs)"
    using l by (simp add: Cardinality_value xs_def)
  have c2: "value_of (Cardinality s h') = Some (2 ^ length xs)"
    using r(2) by (simp add: Cardinality_value r(5) k2 del: upt_Suc)
  have c3: "elems h' recv = elems h recv"
    by (simp add: elems_def r(4) xs_def)
  have c4: "\<forall>e \<in> elems h' s. \<exists>p. e = SetE (SafePtr p) \<and> live h' p
            \<and> length (set_objs h) \<le> p \<and> length (map_objs h) \<le> S (set_objs h' ! p)
            \<and> elems h' p \<subseteq> elems h recv"
  proof
    fix e assume "e \<in> elems h' s"
    then obtain j where j: "e = SetE (SafePtr j)" "s + 1 \<le> j" "j < s + 1 + k"
      by (auto simp: elems_def r(5) simp del: upt_Suc)
    define i where "i = j - (s + 1)"
    have i: "i < k" "j = s + 1 + i" using j by (simp_all add: i_def)
    have "elems h' j \<subseteq> elems h recv"
      using member [OF i(1)] sub [OF i(1)] by (simp add: i(2) elems_def xs_def)
    then show "\<exists>p. e = SetE (SafePtr p) \<and> live h' p
            \<and> length (set_objs h) \<le> p \<and> length (map_objs h) \<le> S (set_objs h' ! p)
            \<and> elems h' p \<subseteq> elems h recv"
      using j(1) r(6) i by (auto simp: s_def n_def)
  qed
  have c5: "\<forall>X. X \<subseteq> elems h recv \<longrightarrow> (\<exists>p. SetE (SafePtr p) \<in> elems h' s \<and> elems h' p = X)"
  proof (intro allI impI)
    fix X assume "X \<subseteq> elems h recv"
    then have "X \<in> set ` set (subseqs xs)"
      by (simp add: subseqs_powset elems_def xs_def)
    then obtain ys where "ys \<in> set (subseqs xs)" "X = set ys" by blast
    with pick obtain i where "i < k" "subs ! i = ys" by blast
    with member [of i] in_ps [of i] \<open>X = set ys\<close>
    show "\<exists>p. SetE (SafePtr p) \<in> elems h' s \<and> elems h' p = X" by auto
  qed
  have c6: "\<exists>p. SetE (SafePtr p) \<in> elems h' s \<and> value_of (Cardinality p h') = Some 0"
  proof -
    have "[] \<in> set (subseqs xs)" by (induction xs) (simp_all add: Let_def)
    with pick obtain i where i: "i < k" "subs ! i = []" by blast
    then have "value_of (Cardinality (s + 1 + i) h') = Some 0"
      using r(6) by (simp add: Cardinality_value)
    with in_ps [OF i(1)] show ?thesis by blast
  qed
  have c7: "\<exists>p. SetE (SafePtr p) \<in> elems h' s \<and> value_of (Equal p (SafePtr recv) h') = Some True"
  proof -
    from pick [OF subseqs_refl] obtain i where i: "i < k" "subs ! i = xs" by blast
    then have "value_of (Equal (s + 1 + i) (SafePtr recv) h') = Some True"
      using r(3,4,6) by (simp add: Equal_value elems_def)
    with in_ps [OF i(1)] show ?thesis by blast
  qed
  show ?thesis
    using r(1,2) c1 c2 c3 c4 c5 c6 c7 by (auto simp: s_def)
qed


theorem PowerSet_holds_every_subset_witness:
  "live (one_set_heap [IntE 1, IntE 2]) 0
   \<and> (\<exists>ps h' n. PowerSet 0 (one_set_heap [IntE 1, IntE 2]) = Inr (SafePtr ps, h')
     \<and> value_of (Cardinality 0 (one_set_heap [IntE 1, IntE 2])) = Some n
     \<and> length (set_objs (one_set_heap [IntE 1, IntE 2])) \<le> ps \<and> live h' ps
     \<and> value_of (Cardinality ps h') = Some (2 ^ n)
     \<and> elems h' 0 = elems (one_set_heap [IntE 1, IntE 2]) 0
     \<and> (\<forall>e \<in> elems h' ps. \<exists>p. e = SetE (SafePtr p) \<and> live h' p
            \<and> length (set_objs (one_set_heap [IntE 1, IntE 2])) \<le> p
            \<and> length (map_objs (one_set_heap [IntE 1, IntE 2])) \<le> S (set_objs h' ! p)
            \<and> elems h' p \<subseteq> elems (one_set_heap [IntE 1, IntE 2]) 0)
     \<and> (\<forall>X. X \<subseteq> elems (one_set_heap [IntE 1, IntE 2]) 0 \<longrightarrow>
            (\<exists>p. SetE (SafePtr p) \<in> elems h' ps \<and> elems h' p = X))
     \<and> (\<exists>p. SetE (SafePtr p) \<in> elems h' ps \<and> value_of (Cardinality p h') = Some 0)
     \<and> (\<exists>p. SetE (SafePtr p) \<in> elems h' ps \<and> value_of (Equal p (SafePtr 0) h') = Some True))"
proof -
  have l: "live (one_set_heap [IntE 1, IntE 2]) 0"
    by (simp add: live_def one_set_heap_def)
  show ?thesis
    using l PowerSet_holds_every_subset [OF l] by (rule conjI)
qed


section \<open>Binary operations that build a set\<close>

lemma load_lock_log_update [simp]: "load (h\<lparr>lock_log := x\<rparr>) m = load h m"
  by (simp add: load_def)

lemma range_map_lock_log_update [simp]: "range_map (h\<lparr>lock_log := x\<rparr>) m = range_map h m"
  by (simp add: range_map_def)

lemma Union_effect:
  "live h a \<Longrightarrow> live h b \<Longrightarrow>
   Union_set a (SafePtr b) h =
     Inr (SafePtr (length (set_objs h)),
          result_heap (dlist_of_list (range_map h (S (set_objs h ! a)) @
                                      range_map h (S (set_objs h ! b)))) a b h)"
  by (simp add: Union_set_def unsafe_Union_def make_map_def new_threadSafeSet_def deref_live
        result_heap_def lock_call_def Let_def)

lemma Intersect_effect:
  "live h a \<Longrightarrow> live h b \<Longrightarrow>
   Intersect a (SafePtr b) h =
     Inr (SafePtr (length (set_objs h)),
          result_heap (Dlist.filter (Dlist.member (load h (S (set_objs h ! b))))
                         (load h (S (set_objs h ! a)))) a b h)"
  by (simp add: Intersect_def unsafe_Intersect_def make_map_def new_threadSafeSet_def deref_live
        result_heap_def lock_call_def Let_def)

lemma Difference_effect:
  "live h a \<Longrightarrow> live h b \<Longrightarrow>
   Difference a (SafePtr b) h =
     Inr (SafePtr (length (set_objs h)),
          result_heap (Dlist.filter (\<lambda>x. \<not> Dlist.member (load h (S (set_objs h ! b))) x)
                         (load h (S (set_objs h ! a)))) a b h)"
  by (simp add: Difference_def unsafe_Difference_def make_map_def new_threadSafeSet_def
        deref_live result_heap_def lock_call_def Let_def)

lemma SymmetricDifference_effect:
  "live h a \<Longrightarrow> live h b \<Longrightarrow>
   SymmetricDifference a (SafePtr b) h =
     Inr (SafePtr (length (set_objs h)),
          result_heap
            (dlist_of_list
               (filter (\<lambda>x. \<not> Dlist.member (load h (S (set_objs h ! b))) x)
                  (range_map h (S (set_objs h ! a))) @
                filter (\<lambda>x. \<not> Dlist.member (load h (S (set_objs h ! a))) x)
                  (range_map h (S (set_objs h ! b))))) a b h)"
  by (simp add: SymmetricDifference_def unsafe_SymmetricDifference_def make_map_def
        new_threadSafeSet_def deref_live result_heap_def lock_call_def Let_def)

lemma CartesianProduct_effect:
  "live h a \<Longrightarrow> live h b \<Longrightarrow>
   CartesianProduct a (SafePtr b) h =
     Inr (SafePtr (length (set_objs h)),
          result_heap
            (dlist_of_list
               (concat (map (\<lambda>x. map (PairE x) (range_map h (S (set_objs h ! b))))
                          (range_map h (S (set_objs h ! a)))))) a b h)"
  by (simp add: CartesianProduct_def unsafe_CartesianProduct_def make_map_def
        new_threadSafeSet_def deref_live result_heap_def lock_call_def Let_def)

lemma set_binop_effect:
  assumes "live h a" "live h b"
    and "op \<in> {Union_set, Intersect, Difference, SymmetricDifference, CartesianProduct}"
  shows "\<exists>d. op a (SafePtr b) h = Inr (SafePtr (length (set_objs h)), result_heap d a b h)"
  using assms(3) Union_effect [OF assms(1,2)] Intersect_effect [OF assms(1,2)]
    Difference_effect [OF assms(1,2)] SymmetricDifference_effect [OF assms(1,2)]
    CartesianProduct_effect [OF assms(1,2)]
  by auto

lemma live_result_heap: "live h c \<Longrightarrow> live (result_heap d a b h) c"
  by (simp add: live_def result_heap_def nth_append)

lemma live_result_heap_new: "live (result_heap d a b h) (length (set_objs h))"
  by (simp add: live_def result_heap_def)

lemma elems_result_heap: "live h c \<Longrightarrow> elems (result_heap d a b h) c = elems h c"
  by (simp add: live_def elems_def range_map_def load_def result_heap_def nth_append)

text \<open>
  Claim C3. For thread-safe sets \<open>A\<close> and \<open>B\<close> (possibly the same), each of \<open>Union\<close>,
  \<open>Intersect\<close>, \<open>Difference\<close>, \<open>SymmetricDifference\<close> and \<open>CartesianProduct\<close> returns a
  thread-safe set and leaves the elements of \<open>A\<close> and of \<open>B\<close> as they were; no map and
  no struct that existed before the call is changed. The returned struct is newly
  allocated and its map is newly allocated, so it is neither the map of \<open>A\<close> nor the
  map of \<open>B\<close>. (Elements are copied as values: an element that is a pointer points to
  the same object in the result as in the operand.)
\<close>

theorem binary_ops_keep_operands_and_allocate:
  assumes "live h a" "live h b"
    and "op \<in> {Union_set, Intersect, Difference, SymmetricDifference, CartesianProduct}"
  shows "\<exists>ret h'. op a (SafePtr b) h = Inr (SafePtr ret, h')
     \<and> elems h' a = elems h a \<and> elems h' b = elems h b
     \<and> take (length (map_objs h)) (map_objs h') = map_objs h
     \<and> take (length (set_objs h)) (set_objs h') = set_objs h
     \<and> length (set_objs h) \<le> ret \<and> live h' ret
     \<and> length (map_objs h) \<le> S (set_objs h' ! ret)
     \<and> S (set_objs h' ! ret) \<noteq> S (set_objs h' ! a)
     \<and> S (set_objs h' ! ret) \<noteq> S (set_objs h' ! b)"
proof -
  from set_binop_effect [OF assms] obtain d where
    r: "op a (SafePtr b) h = Inr (SafePtr (length (set_objs h)), result_heap d a b h)"
    by blast
  have "S (set_objs (result_heap d a b h) ! length (set_objs h)) = length (map_objs h)"
    by (simp add: result_heap_def)
  moreover have "S (set_objs (result_heap d a b h) ! a) < length (map_objs h)"
      "S (set_objs (result_heap d a b h) ! b) < length (map_objs h)"
    using assms(1,2) by (simp_all add: live_def result_heap_def nth_append)
  moreover have "take (length (map_objs h)) (map_objs (result_heap d a b h)) = map_objs h"
      "take (length (set_objs h)) (set_objs (result_heap d a b h)) = set_objs h"
    by (simp_all add: result_heap_def)
  ultimately show ?thesis
    using r assms(1,2) by (simp add: elems_result_heap live_result_heap_new)
qed

theorem binary_ops_keep_operands_and_allocate_witness:
  "live (two_set_heap [IntE 1, IntE 2] [IntE 2, IntE 3]) 0
   \<and> live (two_set_heap [IntE 1, IntE 2] [IntE 2, IntE 3]) 1
   \<and> SymmetricDifference \<in>
        {Union_set, Intersect, Difference, SymmetricDifference, CartesianProduct}
   \<and> (\<exists>ret h'. SymmetricDifference 0 (SafePtr 1) (two_set_heap [IntE 1, IntE 2] [IntE 2, IntE 3])
            = Inr (SafePtr ret, h')
     \<and> elems h' 0 = elems (two_set_heap [IntE 1, IntE 2] [IntE 2, IntE 3]) 0
     \<and> elems h' 1 = elems (two_set_heap [IntE 1, IntE 2] [IntE 2, IntE 3]) 1
     \<and> take (length (map_objs (two_set_heap [IntE 1, IntE 2] [IntE 2, IntE 3]))) (map_objs h')
          = map_objs (two_set_heap [IntE 1, IntE 2] [IntE 2, IntE 3])
     \<and> take (length (set_objs (two_set_heap [IntE 1, IntE 2] [IntE 2, IntE 3]))) (set_objs h')
          = set_objs (two_set_heap [IntE 1, IntE 2] [IntE 2, IntE 3])
     \<and> length (set_objs (two_set_heap [IntE 1, IntE 2] [IntE 2, IntE 3])) \<le> ret
     \<and> live h' ret
     \<and> length (map_objs (two_set_heap [IntE 1, IntE 2] [IntE 2, IntE 3])) \<le> S (set_objs h' ! ret)
     \<and> S (set_objs h' ! ret) \<noteq> S (set_objs h' ! 0)
     \<and> S (set_objs h' ! ret) \<noteq> S (set_objs h' ! 1))"
proof -
  have l0: "live (two_set_heap [IntE 1, IntE 2] [IntE 2, IntE 3]) 0"
    by (simp add: live_def two_set_heap_def)
  have l1: "live (two_set_heap [IntE 1, IntE 2] [IntE 2, IntE 3]) 1"
    by (simp add: live_def two_set_heap_def)
  have op: "SymmetricDifference \<in>
      {Union_set, Intersect, Difference, SymmetricDifference, CartesianProduct}"
    by simp
  show ?thesis
    using l0 l1 op binary_ops_keep_operands_and_allocate [OF l0 l1 op] by (intro conjI)
qed


section \<open>The variant of the results\<close>

lemma Clone_effect:
  "live h a \<Longrightarrow>
   Clone a h =
     Inr (SafePtr (length (set_objs h)),
          h\<lparr>map_objs := map_objs h @ [load h (S (set_objs h ! a))],
            set_objs := set_objs h @ [\<lparr>S = length (map_objs h)\<rparr>],
            lock_log := lock_log h @ [RLock a, RUnlock a]\<rparr>)"
  by (simp add: Clone_def unsafe_Clone_def make_map_def new_threadSafeSet_def deref_live
        lock_call_def Let_def)

lemma set_op_returns_live:
  assumes "live h a" "live h b"
    and "op \<in> {Union_set, Intersect, Difference, SymmetricDifference, CartesianProduct,
               (\<lambda>recv other. Clone recv), (\<lambda>recv other. PowerSet recv)}"
  shows "\<exists>r h'. op a (SafePtr b) h = Inr (SafePtr r, h') \<and> live h' r \<and> live h' a"
proof -
  consider "op \<in> {Union_set, Intersect, Difference, SymmetricDifference, CartesianProduct}"
    | "op = (\<lambda>recv other. Clone recv)" | "op = (\<lambda>recv other. PowerSet recv)"
    using assms(3) by auto
  then show ?thesis
  proof cases
    case 1
    from set_binop_effect [OF assms(1,2) 1] obtain d where
      "op a (SafePtr b) h = Inr (SafePtr (length (set_objs h)), result_heap d a b h)"
      by blast
    then show ?thesis
      using assms(1) by (simp add: live_result_heap live_result_heap_new)
  next
    case 2
    then show ?thesis
      using assms(1) by (simp add: Clone_effect live_def nth_append)
  next
    case 3
    from PowerSet_members [OF assms(1) refl refl refl refl] 3 show ?thesis
      by blast
  qed
qed

lemma bool_binop_returns:
  assumes "live h c" "live h r" and "bop \<in> {IsSubset, IsProperSubset, Equal}"
  shows "\<exists>v h'. bop c (SafePtr r) h = Inr (v, h')"
  using assms by (auto simp: IsSubset_def IsProperSubset_def Equal_def deref_live Let_def)

lemma set_binop_returns:
  assumes "live h c" "live h r"
    and "bop \<in> {Union_set, Intersect, Difference, SymmetricDifference, CartesianProduct}"
  shows "\<exists>v h'. bop c (SafePtr r) h = Inr (v, h')"
  using set_binop_effect [OF assms] by blast

lemma bool_binop_no_conversion_panic:
  assumes "bop \<in> {IsSubset, IsProperSubset, Equal}"
  shows "bop c (SafePtr r) h \<noteq> Inl InterfaceConversion"
  using assms
  by (auto simp: IsSubset_def IsProperSubset_def Equal_def Let_def split: option.splits)

lemma set_binop_no_conversion_panic:
  assumes "bop \<in> {Union_set, Intersect, Difference, SymmetricDifference, CartesianProduct}"
  shows "bop c (SafePtr r) h \<noteq> Inl InterfaceConversion"
  using assms
  by (auto simp: Union_set_def Intersect_def Difference_def SymmetricDifference_def
        CartesianProduct_def Let_def split_def split: option.splits)

text \<open>
  Claim C9. For thread-safe sets \<open>A\<close> and \<open>B\<close>, each of \<open>Union\<close>, \<open>Intersect\<close>,
  \<open>Difference\<close>, \<open>SymmetricDifference\<close>, \<open>CartesianProduct\<close>, \<open>Clone\<close> and \<open>PowerSet\<close>
  returns, and what it returns is a thread-safe set. Passed as the operand of any of
  the eight binary operations, with any receiver, this result does not fail the type
  assertion; with a thread-safe set as receiver the operation returns normally.
\<close>

theorem set_results_are_thread_safe:
  assumes "live h a" "live h b"
    and "op \<in> {Union_set, Intersect, Difference, SymmetricDifference, CartesianProduct,
               (\<lambda>recv other. Clone recv), (\<lambda>recv other. PowerSet recv)}"
  shows "\<exists>res h'. op a (SafePtr b) h = Inr (res, h') \<and> is_threadSafe res \<and> live h' a
     \<and> (\<forall>c. (\<forall>bop \<in> {IsSubset, IsProperSubset, Equal}.
                 bop c res h' \<noteq> Inl InterfaceConversion
                 \<and> (live h' c \<longrightarrow> (\<exists>v h''. bop c res h' = Inr (v, h''))))
            \<and> (\<forall>bop \<in> {Union_set, Intersect, Difference, SymmetricDifference, CartesianProduct}.
                 bop c res h' \<noteq> Inl InterfaceConversion
                 \<and> (live h' c \<longrightarrow> (\<exists>v h''. bop c res h' = Inr (v, h'')))))"
proof -
  from set_op_returns_live [OF assms] obtain r h' where
    r: "op a (SafePtr b) h = Inr (SafePtr r, h')" "live h' r" "live h' a"
    by blast
  have "is_threadSafe (SafePtr r)"
    by (simp add: is_threadSafe_def)
  moreover have "\<forall>c. (\<forall>bop \<in> {IsSubset, IsProperSubset, Equal}.
                 bop c (SafePtr r) h' \<noteq> Inl InterfaceConversion
                 \<and> (live h' c \<longrightarrow> (\<exists>v h''. bop c (SafePtr r) h' = Inr (v, h''))))
            \<and> (\<forall>bop \<in> {Union_set, Intersect, Difference, SymmetricDifference, CartesianProduct}.
                 bop c (SafePtr r) h' \<noteq> Inl InterfaceConversion
                 \<and> (live h' c \<longrightarrow> (\<exists>v h''. bop c (SafePtr r) h' = Inr (v, h''))))"
  proof (intro allI conjI ballI impI)
    fix c bop
    assume "bop \<in> {IsSubset, IsProperSubset, Equal}"
    then show "bop c (SafePtr r) h' \<noteq> Inl InterfaceConversion"
      by (rule bool_binop_no_conversion_panic)
  next
    fix c bop
    assume "bop \<in> {IsSubset, IsProperSubset, Equal}" "live h' c"
    then show "\<exists>v h''. bop c (SafePtr r) h' = Inr (v, h'')"
      using bool_binop_returns [OF _ r(2)] by simp
  next
    fix c bop
    assume "bop \<in> {Union_set, Intersect, Difference, SymmetricDifference, CartesianProduct}"
    then show "bop c (SafePtr r) h' \<noteq> Inl InterfaceConversion"
      by (rule set_binop_no_conversion_panic)
  next
    fix c bop
    assume "bop \<in> {Union_set, Intersect, Difference, SymmetricDifference, CartesianProduct}"
      "live h' c"
    then show "\<exists>v h''. bop c (SafePtr r) h' = Inr (v, h'')"
      using set_binop_returns [OF _ r(2)] by simp
  qed
  ultimately show ?thesis
    using r(1,3) by (intro exI [of _ "SafePtr r"] exI [of _ h']) simp
qed

theorem set_results_are_thread_safe_witness:
  "live (two_set_heap [IntE 1, IntE 2] [IntE 2, IntE 3]) 0
   \<and> live (two_set_heap [IntE 1, IntE 2] [IntE 2, IntE 3]) 1
   \<and> (\<lambda>recv other. PowerSet recv) \<in>
        {Union_set, Intersect, Difference, SymmetricDifference, CartesianProduct,
         (\<lambda>recv other. Clone recv), (\<lambda>recv other. PowerSet recv)}
   \<and> (\<exists>res h'. PowerSet 0 (two_set_heap [IntE 1, IntE 2] [IntE 2, IntE 3]) = Inr (res, h')
     \<and> is_threadSafe res \<and> live h' 0
     \<and> (\<forall>c. (\<forall>bop \<in> {IsSubset, IsProperSubset, Equal}.
                 bop c res h' \<noteq> Inl InterfaceConversion
                 \<and> (live h' c \<longrightarrow> (\<exists>v h''. bop c res h' = Inr (v, h''))))
            \<and> (\<forall>bop \<in> {Union_set, Intersect, Difference, SymmetricDifference, CartesianProduct}.
                 bop c res h' \<noteq> Inl InterfaceConversion
                 \<and> (live h' c \<longrightarrow> (\<exists>v h''. bop c res h' = Inr (v, h''))))))"
proof -
  have l0: "live (two_set_heap [IntE 1, IntE 2] [IntE 2, IntE 3]) 0"
    by (simp add: live_def two_set_heap_def)
  have l1: "live (two_set_heap [IntE 1, IntE 2] [IntE 2, IntE 3]) 1"
    by (simp add: live_def two_set_heap_def)
  have op: "(\<lambda>recv other. PowerSet recv) \<in>
        {Union_set, Intersect, Difference, SymmetricDifference, CartesianProduct,
         (\<lambda>recv other. Clone recv), (\<lambda>recv other. PowerSet recv)}"
    by simp
  show ?thesis
    using l0 l1 op set_results_are_thread_safe [OF l0 l1 op] by (intro conjI)
qed


section \<open>The lock taken by each mutation\<close>

lemma UnmarshalJSON_lock_calls:
  "live h recv \<Longrightarrow>
   \<exists>err h'. UnmarshalJSON decode recv p h = Inr (err, h')
     \<and> lock_log h' = lock_log h @ [RLock recv, RUnlock recv]"
  by (simp add: UnmarshalJSON_def unsafe_UnmarshalJSON_def deref_live live_def
        split: option.split)

text \<open>
  Claim C1 says that \<open>Add\<close>, \<open>Remove\<close>, \<open>Clear\<close>, \<open>Pop\<close> and \<open>UnmarshalJSON\<close> hold the
  write lock of the receiver while they change it. The theorem evaluates the five
  methods. \<open>UnmarshalJSON\<close>, called on the empty set with an input that decodes to the
  array \<open>[1]\<close>, returns without error with the set changed from \<open>{}\<close> to \<open>{1}\<close>, and the
  only calls it made on the receiver's mutex are \<open>RLock\<close> and \<open>RUnlock\<close>: the change
  happened under the shared lock. The other four make the calls \<open>Lock\<close> and \<open>Unlock\<close>.
\<close>

theorem UnmarshalJSON_mutates_under_read_lock:
  "(\<exists>h'. UnmarshalJSON (\<lambda>p. Some [IntE 1]) 0 ''[1]'' (one_set_heap []) = Inr (None, h')
        \<and> lock_log h' = [RLock 0, RUnlock 0]
        \<and> elems (one_set_heap []) 0 = {}
        \<and> elems h' 0 = {IntE 1})
   \<and> map_option lock_log (heap_of (Add 0 (IntE 1) (one_set_heap []))) = Some [Lock 0, Unlock 0]
   \<and> map_option lock_log (heap_of (Remove 0 (IntE 1) (one_set_heap [IntE 1])))
        = Some [Lock 0, Unlock 0]
   \<and> map_option lock_log (heap_of (Clear 0 (one_set_heap [IntE 1]))) = Some [Lock 0, Unlock 0]
   \<and> map_option lock_log (heap_of (Pop 0 (one_set_heap [IntE 1]))) = Some [Lock 0, Unlock 0]"
  by (simp add: UnmarshalJSON_def unsafe_UnmarshalJSON_def Add_def unsafe_Add_def Remove_def
        Clear_def Pop_def unsafe_Pop_def newThreadUnsafeSet_def make_map_def delete_map_def
        heap_of_def elems_def range_map_def deref_def load_def store_def lock_call_def
        one_set_heap_def Dlist.member_def)

end
